theory Spec2Isabelle
  imports Complex_Main "HOL-Library.Char_ord" "HOL-Library.List_Lexorder"
begin

section \<open>JavaScript values used by the runner\<close>

text \<open>
  The option \<open>expectedCount\<close> of \<open>utils/lovart_runner.js\<close> is an arbitrary JavaScript
  value. The runner only ever applies \<open>Number.isFinite\<close>, \<open>Math.floor\<close>, truthiness and
  numeric comparison to it, so it is modelled as a finite number (an exact rational; every
  double is one), one of the three non-finite numbers, or \<open>undefined\<close> (which also stands
  for every other value on which \<open>Number.isFinite\<close> is false and which is falsy).
\<close>

datatype jsnum = Num rat | NaN | PosInf | NegInf | Undefined

fun isFinite :: "jsnum \<Rightarrow> bool" where
  "isFinite (Num q) = True"
| "isFinite _ = False"

text \<open>Truthiness of a value: \<open>0\<close>, \<open>NaN\<close> and \<open>undefined\<close> are falsy.\<close>

fun truthy :: "jsnum \<Rightarrow> bool" where
  "truthy (Num q) = (q \<noteq> 0)"
| "truthy PosInf = True"
| "truthy NegInf = True"
| "truthy NaN = False"
| "truthy Undefined = False"

text \<open>\<open>count < x\<close> and \<open>count >= x\<close> for a natural number \<open>count\<close>; every comparison with
  \<open>NaN\<close> or \<open>undefined\<close> is false.\<close>

fun js_lt :: "nat \<Rightarrow> jsnum \<Rightarrow> bool" where
  "js_lt c (Num q) = (of_nat c < q)"
| "js_lt c PosInf = True"
| "js_lt c _ = False"

fun js_ge :: "nat \<Rightarrow> jsnum \<Rightarrow> bool" where
  "js_ge c (Num q) = (q \<le> of_nat c)"
| "js_ge c NegInf = True"
| "js_ge c _ = False"

section \<open>Result slots\<close>

text \<open>
  A result slot is the object \<open>{ ok: true, filePath, downloadedAt }\<close> or
  \<open>{ ok: false, error }\<close>; the time stamp plays no role in any property below and is left
  out. \<open>Hole\<close> is an index of a JavaScript array that was never assigned (a write beyond
  the end of an array leaves holes in between).
\<close>

datatype slot = Success string | Failure string | Hole



definition missing_link :: string where
  \<comment> \<open>"no image link", the initial reason of \<open>downloadImagesWithConcurrency\<close>\<close>
  "missing_link = [CHR 0xE7, CHR 0xBC, CHR 0xBA, CHR 0xE5, CHR 0xB0, CHR 0x91, CHR 0xE5, CHR 0x9B, CHR 0xBE,
     CHR 0xE7, CHR 0x89, CHR 0x87, CHR 0xE9, CHR 0x93, CHR 0xBE, CHR 0xE6, CHR 0x8E, CHR 0xA5]"

definition link_failed :: string where
  \<comment> \<open>"downloading the image link failed"\<close>
  "link_failed = [CHR 0xE4, CHR 0xB8, CHR 0x8B, CHR 0xE8, CHR 0xBD, CHR 0xBD, CHR 0xE5, CHR 0x9B, CHR 0xBE,
     CHR 0xE7, CHR 0x89, CHR 0x87, CHR 0xE9, CHR 0x93, CHR 0xBE, CHR 0xE6, CHR 0x8E, CHR 0xA5,
     CHR 0xE5, CHR 0xA4, CHR 0xB1, CHR 0xE8, CHR 0xB4, CHR 0xA5]"



section \<open>Minimum-success threshold and the success flag of the final report\<close>


text \<open>
  The end of \<open>finalizeAndDownload\<close> in \<open>runLovartBatch\<close>:
  \<^verbatim>\<open>
  const expectedTotal = Number.isFinite(options.expectedCount)
    ? Math.max(0, Math.floor(options.expectedCount))
    : results.length;
  const successCount = results.filter(entry => entry.ok).length;
  const ok = expectedTotal > 0 ? successCount >= minSuccessCount : successCount > 0;
  return { ok, results, successCount, expectedCount: expectedTotal, ... };
  \<close>
  with \<open>minSuccessCount = resolveMinimumSuccessCount(options.expectedCount)\<close>. A report
  also carries the fatal error of the run, absent here. The fatal errors of the download
  stage are: the process deadline passed, the download deadline passed
  (\<open>download_timeout\<close>), no image was generated, fewer images than the minimum were
  generated, the abort signal was set (\<open>lovart_aborted\<close>), the "download all" button did
  not appear, no image link was found on the page, and any other exception of the
  browser, with its message.
\<close>

datatype fatal =
  ProcessTimeout | DownloadTimeout | NoImages | TooFewImages | DownloadAborted
  | DownloadAllMissing | NoImageLinks | BrowserError string





section \<open>Effective image count\<close>

text \<open>
  \<^verbatim>\<open>
  function resolveEffectiveImageCount(urlCount, visualCount, _summaryCount) {
    const base = Math.max(Number(urlCount) || 0, Number(visualCount) || 0);
    if (!base) return 0;
    return base;
  }
  \<close>
  All three arguments are counts (the length of an array, the size of a set, a parsed
  number of at most three digits), so \<open>Number(x) || 0\<close> is the identity on them.
\<close>

definition resolveEffectiveImageCount :: "nat \<Rightarrow> nat \<Rightarrow> nat \<Rightarrow> nat" where
  "resolveEffectiveImageCount urlCount visualCount summaryCount =
     (let base = max urlCount visualCount in if base = 0 then 0 else base)"

text \<open>What \<open>collectResultImageStats\<close> returns.\<close>

record image_stats =
  visualCount :: nat
  summaryCount :: nat

text \<open>
  The count resolution inside one poll of \<open>waitForGenerationReady\<close> (and, with the same
  shape, of \<open>waitForAgentImagesStable\<close>):
  \<^verbatim>\<open>
  let visualCount = 0; let summaryCount = 0; let count = urls.length;
  if ((expectedCount && count < expectedCount) || count < minTarget) {
    const stats = await collectResultImageStats(page);
    visualCount = stats.visualCount || 0;
    summaryCount = stats.summaryCount || 0;
    count = resolveEffectiveImageCount(count, visualCount, summaryCount);
  }
  \<close>
  The result is the triple of the three variables \<open>(count, visualCount, summaryCount)\<close>.
\<close>

definition poll_count :: "jsnum \<Rightarrow> nat \<Rightarrow> nat \<Rightarrow> image_stats \<Rightarrow> nat \<times> nat \<times> nat" where
  "poll_count expectedCount minTarget urlCount stats =
     (if (truthy expectedCount \<and> js_lt urlCount expectedCount) \<or> urlCount < minTarget
      then (resolveEffectiveImageCount urlCount (visualCount stats) (summaryCount stats),
            visualCount stats, summaryCount stats)
      else (urlCount, 0, 0))"

section \<open>The task queue: \<open>claimTask\<close>\<close>

text \<open>
  The two worker scripts hold the same \<open>claimTask\<close>; they differ in the minimum length of
  the content (10 in the first, 30 in the second). A record of the remote table has an
  identifier and fields; a field that is \<open>null\<close>, \<open>undefined\<close> or absent is \<open>None\<close>.
  Strings are sequences of code units, which is what \<open>.length\<close> counts.
\<close>

record task_fields =
  status :: "string option"
  task_id :: "string option"
  rewritten_content :: "string option"
  claimed_by :: "string option"
  claimed_at :: "nat option"

record task_item =
  record_id :: string
  item_fields :: task_fields

text \<open>\<open>String.prototype.trim\<close>, on the ASCII white space characters (tab, line feed,
  vertical tab, form feed, carriage return, space).\<close>

definition is_space :: "char \<Rightarrow> bool" where
  "is_space c = (c \<in> set [CHR 0x09, CHR 0x0A, CHR 0x0B, CHR 0x0C, CHR 0x0D, CHR 0x20])"

definition trim :: "string \<Rightarrow> string" where
  "trim s = rev (dropWhile is_space (rev (dropWhile is_space s)))"

text \<open>
  \<^verbatim>\<open>
  const s = item.fields.status;
  const tid = item.fields.task_id;
  const content = item.fields.rewritten_content || '';
  const claimed = item.fields.claimed_by;
  const isNew = s === 'new' || s === null || s === undefined || s === '';
  const hasTaskId = tid && tid.trim() !== '';
  const hasContent = content && content.length >= 10;     // content.length >= 30
  const notClaimed = !claimed;
  \<close>
\<close>

definition isNew :: "task_item \<Rightarrow> bool" where
  "isNew item = (let s = status (item_fields item)
                 in s = Some ''new'' \<or> s = None \<or> s = Some [])"

definition hasTaskId :: "task_item \<Rightarrow> bool" where
  "hasTaskId item = (case task_id (item_fields item) of
                       None \<Rightarrow> False
                     | Some tid \<Rightarrow> tid \<noteq> [] \<and> trim tid \<noteq> [])"

definition hasContent :: "nat \<Rightarrow> task_item \<Rightarrow> bool" where
  "hasContent minLength item =
     (let content = (case rewritten_content (item_fields item) of
                       None \<Rightarrow> [] | Some c \<Rightarrow> c)
      in content \<noteq> [] \<and> minLength \<le> length content)"

definition notClaimed :: "task_item \<Rightarrow> bool" where
  "notClaimed item = (case claimed_by (item_fields item) of
                        None \<Rightarrow> True
                      | Some c \<Rightarrow> c = [])"

definition claimable :: "nat \<Rightarrow> task_item \<Rightarrow> bool" where
  "claimable minLength item =
     (isNew item \<and> hasTaskId item \<and> hasContent minLength item \<and> notClaimed item)"

text \<open>
  The remote table, reached over HTTP. \<open>getRecords\<close> and \<open>updateRecord\<close> throw when the
  service answers with an error; whether they do is an input of the model. A successful
  \<open>updateRecord(record_id, {status, claimed_by, claimed_at})\<close> overwrites these three fields
  of the record with that identifier.
\<close>

record remote =
  table :: "task_item list"
  read_ok :: bool
  write_ok :: bool

datatype queue_error = ReadFailed | UpdateFailed

definition mark_processing :: "string \<Rightarrow> nat \<Rightarrow> task_item \<Rightarrow> task_item" where
  "mark_processing worker now item =
     item\<lparr>item_fields := (item_fields item)\<lparr>status := Some ''processing'',
                                       claimed_by := Some worker,
                                       claimed_at := Some now\<rparr>\<rparr>"

definition updateRecord :: "string \<Rightarrow> string \<Rightarrow> nat \<Rightarrow> task_item list \<Rightarrow> task_item list" where
  "updateRecord rid worker now tbl =
     map (\<lambda>r. if record_id r = rid then mark_processing worker now r else r) tbl"

text \<open>
  \<^verbatim>\<open>
  for (const item of items) {
    ...
    if (isNew && hasTaskId && hasContent && notClaimed) {
      await updateRecord(item.record_id, { status: 'processing',
        claimed_by: CONFIG.WORKER_NAME, claimed_at: now });
      return item;
    }
  }
  return null;
  \<close>
  The result is the outcome of the call (an error, \<open>null\<close> or the item) together with the
  remote table after the call.
\<close>

fun claim_loop ::
  "nat \<Rightarrow> string \<Rightarrow> nat \<Rightarrow> remote \<Rightarrow> task_item list
     \<Rightarrow> (queue_error + task_item option) \<times> task_item list" where
  "claim_loop minLength worker now r [] = (Inr None, table r)"
| "claim_loop minLength worker now r (item # items) =
     (if claimable minLength item
      then (if write_ok r
            then (Inr (Some item), updateRecord (record_id item) worker now (table r))
            else (Inl UpdateFailed, table r))
      else claim_loop minLength worker now r items)"

definition claimTask ::
  "nat \<Rightarrow> string \<Rightarrow> nat \<Rightarrow> remote \<Rightarrow> (queue_error + task_item option) \<times> task_item list" where
  "claimTask minLength worker now r =
     (if read_ok r then claim_loop minLength worker now r (table r)
      else (Inl ReadFailed, table r))"

definition claimTask_first_worker ::
  "string \<Rightarrow> nat \<Rightarrow> remote \<Rightarrow> (queue_error + task_item option) \<times> task_item list" where
  "claimTask_first_worker = claimTask 10"



section \<open>Direct download: \<open>downloadImagesWithConcurrency\<close>\<close>

text \<open>
  \<^verbatim>\<open>function padIndex(index) { return String(index).padStart(3, '0'); }\<close>
  and the target of index \<open>i\<close>, \<^verbatim>\<open>path.join(outputDir, `${padIndex(index + 1)}.png`)\<close>
  (the normalisation that \<open>path.join\<close> applies to \<open>outputDir\<close> is left out).
\<close>

definition digit_char :: "nat \<Rightarrow> char" where
  "digit_char d = char_of (48 + d)"

fun string_of_nat :: "nat \<Rightarrow> string" where
  "string_of_nat n =
     (if n < 10 then [digit_char n] else string_of_nat (n div 10) @ [digit_char (n mod 10)])"

definition padIndex :: "nat \<Rightarrow> string" where
  "padIndex index = (let s = string_of_nat index in replicate (3 - length s) CHR ''0'' @ s)"

definition targetPath :: "string \<Rightarrow> nat \<Rightarrow> string" where
  "targetPath outputDir index = outputDir @ ''/'' @ padIndex (index + 1) @ ''.png''"

text \<open>
  The arguments of the call that the properties depend on, and the constants the function
  derives from them:
  \<^verbatim>\<open>
  const count = Number.isFinite(expectedCount) ? Math.max(0, Math.floor(expectedCount)) : 0;
  const deadline = Number.isFinite(deadlineMs) && deadlineMs > 0 ? deadlineMs : 0;
  const limit = Number.isFinite(concurrency)
    ? Math.max(1, Math.min(8, Math.floor(concurrency))) : 4;
  const stopAt = (!downloadUntilExpected && Number.isFinite(minSuccessCount)
                  && minSuccessCount > 0)
    ? Math.max(1, Math.min(minSuccessCount, count)) : 0;
  \<close>
\<close>

record dl_args =
  urls :: "string list"
  outputDir :: string
  expectedCount :: jsnum
  concurrency :: jsnum
  minSuccessCount :: jsnum
  downloadUntilExpected :: bool
  deadlineMs :: jsnum

definition dl_count :: "dl_args \<Rightarrow> nat" where
  "dl_count a = (case expectedCount a of Num q \<Rightarrow> nat (max 0 \<lfloor>q\<rfloor>) | _ \<Rightarrow> 0)"

definition dl_deadline :: "dl_args \<Rightarrow> rat" where
  "dl_deadline a = (case deadlineMs a of Num q \<Rightarrow> (if q > 0 then q else 0) | _ \<Rightarrow> 0)"

definition dl_limit :: "dl_args \<Rightarrow> nat" where
  "dl_limit a = (case concurrency a of Num q \<Rightarrow> nat (max 1 (min 8 \<lfloor>q\<rfloor>)) | _ \<Rightarrow> 4)"

definition dl_stopAt :: "dl_args \<Rightarrow> rat" where
  "dl_stopAt a =
     (case minSuccessCount a of
        Num q \<Rightarrow> (if \<not> downloadUntilExpected a \<and> q > 0
                   then max 1 (min q (of_nat (dl_count a))) else 0)
      | _ \<Rightarrow> 0)"

text \<open>\<^verbatim>\<open>const url = urls && urls[index] ? urls[index] : '';\<close>\<close>

definition url_at :: "dl_args \<Rightarrow> nat \<Rightarrow> string" where
  "url_at a index = (if index < length (urls a) then urls a ! index else [])"

text \<open>
  What the function asks of its environment. \<open>clock\<close> and \<open>aborted\<close> answer the successive
  readings of \<open>Date.now()\<close> and of the abort signal (the \<open>k\<close>-th question overall gets the
  answer at \<open>k\<close>); \<open>file_exists i\<close> is \<open>fs.existsSync\<close> of the target of index \<open>i\<close> and
  \<open>fetch i\<close> the path that \<open>downloadImageFromUrl\<close> returns for index \<open>i\<close> (empty when the
  download fails), both asked at most once per index; \<open>order k\<close> chooses which of the
  downloads in flight completes as the \<open>k\<close>-th.
\<close>

record dl_env =
  clock :: "nat \<Rightarrow> int"
  aborted :: "nat \<Rightarrow> bool"
  file_exists :: "nat \<Rightarrow> bool"
  fetch :: "nat \<Rightarrow> string"
  order :: "nat \<Rightarrow> nat"

text \<open>
  The variables shared by the workers (\<open>cursor\<close>, \<open>successCount\<close>, \<open>results\<close>), the indices
  whose download is awaited, the log of the indices for which a download was started, the
  number of questions asked so far, the number of completed downloads, and whether a
  worker has thrown the abort error.
\<close>

record dl_state =
  cursor :: nat
  dl_successCount :: nat
  dl_results :: "slot list"
  inflight :: "nat list"
  fetched :: "nat list"
  tick :: nat
  completed :: nat
  threw :: bool

text \<open>
  One pass through the body of a worker's loop, from the loop head to the next
  \<open>continue\<close>, \<open>break\<close>, \<open>throw\<close> or \<open>await\<close>:
  \<^verbatim>\<open>
  while (true) {
    if (deadline && Date.now() > deadline) break;
    throwIfAborted(abortSignal, logger);
    if (stopAt && successCount >= stopAt) break;
    const index = cursor;
    cursor += 1;
    if (index >= count) break;
    if (deadline && Date.now() > deadline) break;
    if (stopAt && successCount >= stopAt) break;
    const url = urls && urls[index] ? urls[index] : '';
    if (!url) { results[index] = { ok: false, error: missing link }; continue; }
    const targetPath = path.join(outputDir, `${padIndex(index + 1)}.png`);
    if (fs.existsSync(targetPath)) {
      results[index] = { ok: true, filePath: targetPath, ... };
      successCount += 1;
      continue;
    }
    const saved = await downloadImageFromUrl(page, url, targetPath, ...);
    ...
  }
  \<close>
  \<open>downloadImageFromUrl\<close> begins with \<open>throwIfAborted(abortSignal, logger)\<close>, which runs
  when the worker calls it; the rest of it catches its own exceptions.
\<close>

datatype pass = Continue dl_state | Break dl_state | Throw dl_state | Await dl_state

definition past_deadline :: "dl_env \<Rightarrow> dl_args \<Rightarrow> dl_state \<Rightarrow> bool" where
  "past_deadline env a st = (dl_deadline a \<noteq> 0 \<and> dl_deadline a < of_int (clock env (tick st)))"

definition stop_reached :: "dl_args \<Rightarrow> dl_state \<Rightarrow> bool" where
  "stop_reached a st = (dl_stopAt a \<noteq> 0 \<and> dl_stopAt a \<le> of_nat (dl_successCount st))"

definition asked :: "dl_state \<Rightarrow> dl_state" where
  "asked st = st\<lparr>tick := Suc (tick st)\<rparr>"

definition loop_pass :: "dl_env \<Rightarrow> dl_args \<Rightarrow> dl_state \<Rightarrow> pass" where
  "loop_pass env a st =
     (if past_deadline env a st then Break (asked st)
      else let st1 = asked st in
      if aborted env (tick st1) then Throw ((asked st1)\<lparr>threw := True\<rparr>)
      else let st2 = asked st1 in
      if stop_reached a st2 then Break st2
      else let index = cursor st2; st3 = st2\<lparr>cursor := Suc index\<rparr> in
      if dl_count a \<le> index then Break st3
      else if past_deadline env a st3 then Break (asked st3)
      else let st4 = asked st3 in
      if stop_reached a st4 then Break st4
      else if url_at a index = []
        then Continue (st4\<lparr>dl_results := (dl_results st4)[index := Failure missing_link]\<rparr>)
      else if file_exists env index
        then Continue (st4\<lparr>dl_results :=
                               (dl_results st4)[index := Success (targetPath (outputDir a) index)],
                            dl_successCount := Suc (dl_successCount st4)\<rparr>)
      else if aborted env (tick st4) then Throw ((asked st4)\<lparr>threw := True\<rparr>)
      else Await ((asked st4)\<lparr>inflight := inflight st4 @ [index],
                               fetched := fetched st4 @ [index]\<rparr>))"

text \<open>A worker runs passes until it leaves the loop or waits for a download.\<close>

function worker :: "dl_env \<Rightarrow> dl_args \<Rightarrow> dl_state \<Rightarrow> dl_state" where
  "worker env a st =
     (case loop_pass env a st of
        Continue st' \<Rightarrow> worker env a st'
      | Break st' \<Rightarrow> st'
      | Throw st' \<Rightarrow> st'
      | Await st' \<Rightarrow> st')"
  by pat_completeness auto
termination
proof (relation "measure (\<lambda>(env, a, st). dl_count a - cursor st)")
  show "wf (measure (\<lambda>(env, a, st). dl_count a - cursor st))" by simp
next
  fix env :: dl_env and a :: dl_args and st st' :: dl_state
  assume "loop_pass env a st = Continue st'"
  then have "cursor st' = Suc (cursor st) \<and> cursor st < dl_count a"
    by (auto simp: loop_pass_def Let_def asked_def split: if_splits)
  then show "((env, a, st'), (env, a, st)) \<in> measure (\<lambda>(env, a, st). dl_count a - cursor st)"
    by auto
qed

text \<open>
  The continuation of a worker after its download of \<open>index\<close> has settled:
  \<^verbatim>\<open>
  if (saved) { results[index] = { ok: true, filePath: saved, ... }; successCount += 1; }
  else { results[index] = { ok: false, error: download failed }; }
  \<close>
  followed by the next passes of its loop.
\<close>

definition resume :: "dl_env \<Rightarrow> dl_args \<Rightarrow> dl_state \<Rightarrow> nat \<Rightarrow> dl_state" where
  "resume env a st index =
     worker env a
       (if fetch env index \<noteq> []
        then st\<lparr>dl_results := (dl_results st)[index := Success (fetch env index)],
                dl_successCount := Suc (dl_successCount st)\<rparr>
        else st\<lparr>dl_results := (dl_results st)[index := Failure link_failed]\<rparr>)"

text \<open>
  \<open>Array.from({ length: limit }, () => (async () => { ... })())\<close> starts the workers one
  after the other; each runs until its first \<open>await\<close> (or to its end).
\<close>

fun start_workers :: "nat \<Rightarrow> dl_env \<Rightarrow> dl_args \<Rightarrow> dl_state \<Rightarrow> dl_state" where
  "start_workers 0 env a st = st"
| "start_workers (Suc n) env a st = start_workers n env a (worker env a st)"

declare worker.simps [simp del]

text \<open>
  Each pass moves the cursor forward whenever it continues or starts a download, so the
  number of indices still to be handed out, counted twice, plus the number of downloads in
  flight never grows while a worker runs.
\<close>

lemma worker_measure:
  "2 * (dl_count a - cursor (worker env a st)) + length (inflight (worker env a st))
     \<le> 2 * (dl_count a - cursor st) + length (inflight st)"
proof (induction env a st rule: worker.induct)
  case (1 env a st)
  show ?case
  proof (cases "loop_pass env a st")
    case (Continue st')
    then have "cursor st' = Suc (cursor st) \<and> cursor st < dl_count a \<and> inflight st' = inflight st"
      by (auto simp: loop_pass_def Let_def asked_def split: if_splits)
    with "1.IH" [OF Continue] Continue show ?thesis by (auto simp: worker.simps [of env a st])
  next
    case (Break st')
    then have "cursor st \<le> cursor st' \<and> inflight st' = inflight st"
      by (auto simp: loop_pass_def Let_def asked_def split: if_splits)
    with Break show ?thesis by (auto simp: worker.simps [of env a st])
  next
    case (Throw st')
    then have "cursor st \<le> cursor st' \<and> inflight st' = inflight st"
      by (auto simp: loop_pass_def Let_def asked_def split: if_splits)
    with Throw show ?thesis by (auto simp: worker.simps [of env a st])
  next
    case (Await st')
    then have "cursor st' = Suc (cursor st) \<and> cursor st < dl_count a
        \<and> length (inflight st') = Suc (length (inflight st))"
      by (auto simp: loop_pass_def Let_def asked_def split: if_splits)
    with Await show ?thesis by (auto simp: worker.simps [of env a st])
  qed
qed

text \<open>
  \<open>await Promise.all(workers)\<close>: as long as a download is in flight one of them settles
  and its worker goes on.
\<close>

function drain :: "dl_env \<Rightarrow> dl_args \<Rightarrow> dl_state \<Rightarrow> dl_state" where
  "drain env a st =
     (if inflight st = [] then st
      else let k = order env (completed st) mod length (inflight st) in
        drain env a
          (resume env a
             (st\<lparr>inflight := take k (inflight st) @ drop (Suc k) (inflight st),
                 completed := Suc (completed st)\<rparr>)
             (inflight st ! k)))"
  by pat_completeness auto
termination
proof (relation "measure (\<lambda>(env, a, st). 2 * (dl_count a - cursor st) + length (inflight st))")
  show "wf (measure (\<lambda>(env, a, st). 2 * (dl_count a - cursor st) + length (inflight st)))"
    by simp
next
  fix env :: dl_env and a :: dl_args and st :: dl_state and k :: nat
  assume ne: "inflight st \<noteq> []" and k: "k = order env (completed st) mod length (inflight st)"
  then have "k < length (inflight st)" by simp
  then have len: "length (take k (inflight st) @ drop (Suc k) (inflight st)) < length (inflight st)"
    by simp
  have "2 * (dl_count a - cursor (resume env a
             (st\<lparr>inflight := take k (inflight st) @ drop (Suc k) (inflight st),
                 completed := Suc (completed st)\<rparr>) (inflight st ! k)))
        + length (inflight (resume env a
             (st\<lparr>inflight := take k (inflight st) @ drop (Suc k) (inflight st),
                 completed := Suc (completed st)\<rparr>) (inflight st ! k)))
      \<le> 2 * (dl_count a - cursor st) + length (take k (inflight st) @ drop (Suc k) (inflight st))"
    unfolding resume_def
    by (rule order_trans [OF worker_measure]) simp
  with len show "((env, a, resume env a
             (st\<lparr>inflight := take k (inflight st) @ drop (Suc k) (inflight st),
                 completed := Suc (completed st)\<rparr>) (inflight st ! k)), (env, a, st))
      \<in> measure (\<lambda>(env, a, st). 2 * (dl_count a - cursor st) + length (inflight st))"
    by simp
qed

declare drain.simps [simp del]

datatype dl_error = Aborted

text \<open>
  The whole call. The result is the outcome (the abort error thrown by a worker, or the
  array \<open>results\<close>) together with the log of the indices for which a download was started.
  \<^verbatim>\<open>
  const results = Array.from({ length: count }, () => ({ ok: false, error: missing link }));
  if (!count) return results;
  ...
  await Promise.all(workers);
  return results;
  \<close>
\<close>

definition dl_initial :: "dl_args \<Rightarrow> dl_state" where
  "dl_initial a =
     \<lparr>cursor = 0, dl_successCount = 0,
      dl_results = replicate (dl_count a) (Failure missing_link),
      inflight = [], fetched = [], tick = 0, completed = 0, threw = False\<rparr>"

definition dl_final :: "dl_env \<Rightarrow> dl_args \<Rightarrow> dl_state" where
  "dl_final env a = drain env a (start_workers (dl_limit a) env a (dl_initial a))"

definition downloadImagesWithConcurrency ::
  "dl_env \<Rightarrow> dl_args \<Rightarrow> (dl_error + slot list) \<times> nat list" where
  "downloadImagesWithConcurrency env a =
     (if dl_count a = 0 then (Inr (replicate (dl_count a) (Failure missing_link)), [])
      else let st = dl_final env a
           in (if threw st then Inl Aborted else Inr (dl_results st), fetched st))"

text \<open>
  The slot that index \<open>i\<close> ends with once a worker has dealt with it, and the indices whose
  processing starts a download.
\<close>

definition settled :: "dl_env \<Rightarrow> dl_args \<Rightarrow> nat \<Rightarrow> slot" where
  "settled env a i =
     (if url_at a i = [] then Failure missing_link
      else if file_exists env i then Success (targetPath (outputDir a) i)
      else if fetch env i \<noteq> [] then Success (fetch env i)
      else Failure link_failed)"

definition needs_fetch :: "dl_env \<Rightarrow> dl_args \<Rightarrow> nat \<Rightarrow> bool" where
  "needs_fetch env a i = (i < dl_count a \<and> url_at a i \<noteq> [] \<and> \<not> file_exists env i)"

fun pass_state :: "pass \<Rightarrow> dl_state" where
  "pass_state (Continue st) = st"
| "pass_state (Break st) = st"
| "pass_state (Throw st) = st"
| "pass_state (Await st) = st"

text \<open>The invariant of every run of the pool.\<close>

definition dl_inv :: "dl_env \<Rightarrow> dl_args \<Rightarrow> dl_state \<Rightarrow> bool" where
  "dl_inv env a st =
     (length (dl_results st) = dl_count a
      \<and> (\<forall>i \<in> set (inflight st). needs_fetch env a i)
      \<and> (\<forall>i \<in> set (fetched st). needs_fetch env a i)
      \<and> (\<forall>i < dl_count a.
            dl_results st ! i = settled env a i \<or> dl_results st ! i = Failure missing_link))"

text \<open>
  Conditions on the environment: no reading of the clock is past the deadline (or there
  is no deadline), and the abort signal is never set.
\<close>

definition never_late :: "dl_env \<Rightarrow> dl_args \<Rightarrow> bool" where
  "never_late env a = (\<forall>t. dl_deadline a = 0 \<or> of_int (clock env t) \<le> dl_deadline a)"

definition never_aborted :: "dl_env \<Rightarrow> bool" where
  "never_aborted env = (\<forall>t. \<not> aborted env t)"

text \<open>
  The invariant of the runs that neither stop early nor run out of time: every index
  below the cursor is settled or in flight, every other slot is untouched.
\<close>

definition dl_full :: "dl_env \<Rightarrow> dl_args \<Rightarrow> dl_state \<Rightarrow> bool" where
  "dl_full env a st =
     (length (dl_results st) = dl_count a
      \<and> (\<forall>i \<in> set (inflight st). i < cursor st \<and> needs_fetch env a i)
      \<and> (\<forall>i < dl_count a. i \<notin> set (inflight st) \<longrightarrow>
            dl_results st ! i = (if i < cursor st then settled env a i else Failure missing_link)))"

definition progressed :: "dl_args \<Rightarrow> dl_state \<Rightarrow> bool" where
  "progressed a st = (threw st \<or> inflight st \<noteq> [] \<or> dl_count a \<le> cursor st)"

text \<open>
  Example calls: two URLs, two expected images, two workers, a minimum of one success;
  an environment in which both target files exist, nothing is aborted and there is no
  deadline, and one in which the abort signal is set.
\<close>

definition two_images :: "bool \<Rightarrow> dl_args" where
  "two_images untilExpected =
     \<lparr>urls = [''u1'', ''u2''], outputDir = ''out'', expectedCount = Num 2,
      concurrency = Num 2, minSuccessCount = Num 1, downloadUntilExpected = untilExpected,
      deadlineMs = Undefined\<rparr>"

definition files_present :: dl_env where
  "files_present =
     \<lparr>clock = (\<lambda>t. 0), aborted = (\<lambda>t. False), file_exists = (\<lambda>i. True),
      fetch = (\<lambda>i. []), order = (\<lambda>k. 0)\<rparr>"

definition abort_requested :: dl_env where
  "abort_requested =
     \<lparr>clock = (\<lambda>t. 0), aborted = (\<lambda>t. True), file_exists = (\<lambda>i. False),
      fetch = (\<lambda>i. ''out/raw.png''), order = (\<lambda>k. 0)\<rparr>"

section \<open>Zip archives: \<open>isZipFile\<close> and \<open>handleZipDownload\<close>\<close>

text \<open>
  \<^verbatim>\<open>
  function isZipFile(filePath) {
    try {
      const fd = fs.openSync(filePath, 'r');
      const header = Buffer.alloc(4);
      fs.readSync(fd, header, 0, 4, 0);
      fs.closeSync(fd);
      return header[0] === 0x50 && header[1] === 0x4b;
    } catch (_err) { return false; }
  }
  \<close>
  The file system maps a path to the bytes of the file, if it can be read. The buffer is
  zero-filled, so a file shorter than four bytes leaves zeros behind its content.
\<close>

definition isZipFile :: "(string \<rightharpoonup> string) \<Rightarrow> string \<Rightarrow> bool" where
  "isZipFile fs filePath =
     (case fs filePath of
        None \<Rightarrow> False
      | Some content \<Rightarrow>
          (let header = take 4 (content @ replicate 4 (CHR 0x00))
           in header ! 0 = CHR 0x50 \<and> header ! 1 = CHR 0x4B))"

text \<open>
  The end of \<open>downloadFromHandle\<close>, which decides what a downloaded file is:
  \<^verbatim>\<open>
  if (isZipFile(tempPath)) { return { zipPath: tempPath }; }
  try { const finalPath = await convertToPng(tempPath, targetPath, logger);
        return { filePath: finalPath }; }
  catch (err) { throw new Error(`not a valid image: ${err.message}`); }
  \<close>
  Whether the conversion succeeds is an input.
\<close>

datatype download_result = ZipPath string | FilePath string | NotAnImage

definition classify_download ::
  "(string \<rightharpoonup> string) \<Rightarrow> bool \<Rightarrow> string \<Rightarrow> string \<Rightarrow> download_result" where
  "classify_download fs converts tempPath target =
     (if isZipFile fs tempPath then ZipPath tempPath
      else if converts then FilePath target else NotAnImage)"















section \<open>The generation pollers\<close>

text \<open>
  The errors a poller raises: \<open>PAGE_CLOSED\<close> (\<open>assertPageOpen\<close>), \<open>lovart_aborted\<close>
  (\<open>throwIfAborted\<close>), \<open>generation_error\<close>, \<open>generation_stuck\<close>, and the exceptions of
  the browser: of a \<open>page.evaluate\<close> that collects URLs or statistics, and of the helpers
  that click and type on the page.
\<close>

datatype wait_error =
  PageClosed | LovartAborted | GenerationError | GenerationStuck | EvaluateFailed | HelperFailed

subsection \<open>\<open>waitForGenerationReady\<close>\<close>

text \<open>
  What one iteration of the loop finds: the reading of \<open>Date.now()\<close> at the loop head,
  whether the page is open, whether the abort signal is set, whether one of the
  configured error selectors matches (\<open>hasAnySelector\<close>; false when none is configured),
  whether the text of the page matches the error phrases (\<open>None\<close> when \<open>page.evaluate\<close>
  throws), the busy flag, the URLs collected and the statistics (\<open>None\<close> when collecting
  throws).
\<close>

record ready_obs =
  obs_now :: int
  pageOpen :: bool
  abortRequested :: bool
  errorSelectorHit :: bool
  errorText :: "bool option"
  busy :: bool
  agentUrls :: "string list option"
  imageStats :: "image_stats option"

text \<open>
  \<^verbatim>\<open>
  async function hasGenerationErrorIndicator(page, selectors) {
    if (!page) return false;
    const indicators = selectors.generationErrorIndicators || [];
    if (indicators.length && await hasAnySelector(page, indicators)) return true;
    try { return await page.evaluate(() => { ...; return /.../.test(text); }); }
    catch (_err) { return false; }
  }
  \<close>
  (the page is not null where the pollers call it: \<open>assertPageOpen\<close> has passed).
\<close>

definition hasGenerationErrorIndicator :: "ready_obs \<Rightarrow> bool" where
  "hasGenerationErrorIndicator obs =
     (if errorSelectorHit obs then True
      else case errorText obs of Some b \<Rightarrow> b | None \<Rightarrow> False)"

text \<open>
  \<^verbatim>\<open>
  const deadline = Number.isFinite(timeoutMs) && timeoutMs > 0
    ? Date.now() + timeoutMs : Date.now() + 180000;
  const minTarget = Number.isFinite(minCount) && minCount > 0
    ? Math.max(1, Math.floor(minCount))
    : (Number.isFinite(expectedCount) && expectedCount > 0
      ? Math.max(1, Math.floor(expectedCount)) : 1);
  \<close>
\<close>

definition ready_deadline :: "int \<Rightarrow> jsnum \<Rightarrow> rat" where
  "ready_deadline start timeoutMs =
     (case timeoutMs of
        Num q \<Rightarrow> (if q > 0 then of_int start + q else of_int start + 180000)
      | _ \<Rightarrow> of_int start + 180000)"

definition positive_floor :: "jsnum \<Rightarrow> nat option" where
  "positive_floor x = (case x of Num q \<Rightarrow> (if q > 0 then Some (nat (max 1 \<lfloor>q\<rfloor>)) else None)
                                | _ \<Rightarrow> None)"

definition ready_minTarget :: "jsnum \<Rightarrow> jsnum \<Rightarrow> nat" where
  "ready_minTarget expected minCount =
     (case positive_floor minCount of
        Some m \<Rightarrow> m
      | None \<Rightarrow> (case positive_floor expected of Some m \<Rightarrow> m | None \<Rightarrow> 1))"

text \<open>
  One iteration, after the loop condition \<open>Date.now() < deadline\<close> has held:
  \<^verbatim>\<open>
  assertPageOpen(page);
  throwIfAborted(abortSignal, logger);
  if (await hasGenerationErrorIndicator(page, selectors)) {
    throw new Error('generation_error');
  }
  const busy = ...;
  const urls = await collectAgentImageUrls(page);
  ... count resolution ...
  if (expectedCount && count >= expectedCount) return { selector: `images:${count}`, urls };
  if (count >= minTarget) return { selector: `images:${count}`, urls };
  await page.waitForTimeout(1000);
  \<close>
\<close>

datatype ready_outcome =
  Raised wait_error | Ready nat "string list" | TimedOut | Polling

definition ready_iteration :: "jsnum \<Rightarrow> nat \<Rightarrow> ready_obs \<Rightarrow> ready_outcome" where
  "ready_iteration expected minTarget obs =
     (if \<not> pageOpen obs then Raised PageClosed
      else if abortRequested obs then Raised LovartAborted
      else if hasGenerationErrorIndicator obs then Raised GenerationError
      else case agentUrls obs of
             None \<Rightarrow> Raised EvaluateFailed
           | Some found \<Rightarrow>
               if ((truthy expected \<and> js_lt (length found) expected) \<or> length found < minTarget)
                  \<and> imageStats obs = None
               then Raised EvaluateFailed
               else let count = fst (poll_count expected minTarget (length found)
                                       (case imageStats obs of
                                          Some s \<Rightarrow> s
                                        | None \<Rightarrow> \<lparr>visualCount = 0, summaryCount = 0\<rparr>))
                    in if truthy expected \<and> js_ge count expected then Ready count found
                       else if minTarget \<le> count then Ready count found
                       else Polling)"

text \<open>
  The loop over the successive observations. The result is the outcome and the number of
  iterations begun; \<open>Polling\<close> says that the observations given ran out before the loop
  ended, \<open>TimedOut\<close> that the loop ended at its deadline and the function returned \<open>null\<close>.
\<close>

fun ready_loop :: "rat \<Rightarrow> jsnum \<Rightarrow> nat \<Rightarrow> nat \<Rightarrow> ready_obs list \<Rightarrow> ready_outcome \<times> nat" where
  "ready_loop deadline expected minTarget n [] = (Polling, n)"
| "ready_loop deadline expected minTarget n (obs # rest) =
     (if \<not> of_int (obs_now obs) < deadline then (TimedOut, n)
      else case ready_iteration expected minTarget obs of
             Polling \<Rightarrow> ready_loop deadline expected minTarget (Suc n) rest
           | outcome \<Rightarrow> (outcome, Suc n))"

definition waitForGenerationReady ::
  "int \<Rightarrow> jsnum \<Rightarrow> jsnum \<Rightarrow> jsnum \<Rightarrow> ready_obs list \<Rightarrow> ready_outcome \<times> nat" where
  "waitForGenerationReady start expected minCount timeoutMs observations =
     ready_loop (ready_deadline start timeoutMs) expected (ready_minTarget expected minCount)
       0 observations"

text \<open>Example observations: a quiet page with no image yet, and the same page showing the
  error text two seconds later.\<close>

definition quiet_page :: "int \<Rightarrow> ready_obs" where
  "quiet_page t =
     \<lparr>obs_now = t, pageOpen = True, abortRequested = False, errorSelectorHit = False,
      errorText = Some False, busy = True, agentUrls = Some [],
      imageStats = Some \<lparr>visualCount = 0, summaryCount = 0\<rparr>\<rparr>"

definition failed_page :: "int \<Rightarrow> ready_obs" where
  "failed_page t = (quiet_page t)\<lparr>errorText := Some True\<rparr>"

subsection \<open>\<open>waitForCountWithRetry\<close>\<close>


















section \<open>The claim set of canvas pages\<close>

text \<open>
  \<^verbatim>\<open>
  let claimedCanvasPages = new Set();

  function claimCanvasPage(page) {
    if (!page || claimedCanvasPages.has(page)) return false;
    claimedCanvasPages.add(page);
    try { page.once('close', () => claimedCanvasPages.delete(page)); } catch (_err) { }
    return true;
  }
  function unclaimCanvasPage(page) { if (!page) return; claimedCanvasPages.delete(page); }
  function isCanvasPageClaimed(page) { return !!(page && claimedCanvasPages.has(page)); }
  \<close>
  A page is identified by a number; \<open>null\<close> is \<open>None\<close>. The registry is the claim set
  together with the pages on which a close listener is registered; \<open>listens\<close> tells
  whether \<open>page.once\<close> succeeded.
\<close>

type_synonym page = nat

type_synonym task = nat

record registry =
  claimedCanvasPages :: "page set"
  closeListeners :: "page set"

definition claimCanvasPage :: "bool \<Rightarrow> page option \<Rightarrow> registry \<Rightarrow> bool \<times> registry" where
  "claimCanvasPage listens pg reg =
     (case pg of
        None \<Rightarrow> (False, reg)
      | Some p \<Rightarrow>
          if p \<in> claimedCanvasPages reg then (False, reg)
          else (True, reg\<lparr>claimedCanvasPages := insert p (claimedCanvasPages reg),
                          closeListeners := (if listens then insert p (closeListeners reg)
                                             else closeListeners reg)\<rparr>))"

definition unclaimCanvasPage :: "page option \<Rightarrow> registry \<Rightarrow> registry" where
  "unclaimCanvasPage pg reg =
     (case pg of
        None \<Rightarrow> reg
      | Some p \<Rightarrow> reg\<lparr>claimedCanvasPages := claimedCanvasPages reg - {p}\<rparr>)"

definition isCanvasPageClaimed :: "page option \<Rightarrow> registry \<Rightarrow> bool" where
  "isCanvasPageClaimed pg reg = (case pg of None \<Rightarrow> False | Some p \<Rightarrow> p \<in> claimedCanvasPages reg)"

text \<open>The \<open>close\<close> event of a page runs its listeners.\<close>

definition page_closed :: "page \<Rightarrow> registry \<Rightarrow> registry" where
  "page_closed p reg =
     (if p \<in> closeListeners reg
      then reg\<lparr>claimedCanvasPages := claimedCanvasPages reg - {p},
               closeListeners := closeListeners reg - {p}\<rparr>
      else reg)"

text \<open>
  What the functions read of an open page: whether its URL matches \<open>lovart.ai\<close>,
  \<open>lovart.ai/canvas\<close> (\<open>isCanvasPage\<close>) and \<open>lovart.ai/home\<close> or \<open>lovart.ai/zh/home\<close>, its
  opener, and the project identifier in its URL (empty when there is none).
\<close>

record page_view =
  page_id :: page
  lovart :: bool
  canvas :: bool
  home :: bool
  opener :: "page option"
  projectId :: string

text \<open>
  \<^verbatim>\<open>
  function isRelatedCanvasPage(page, sourcePage) {
    if (!page) return false;
    if (!sourcePage) return true;
    if (page === sourcePage) return true;
    ... const opener = page.opener(); if (!opener) return true; return opener === sourcePage;
  }
  \<close>
  and the test \<open>isAllowed\<close> of \<open>waitForCanvasPage\<close>:
  \<^verbatim>\<open>
  if (!page) return false;
  if (!isCanvasPage(page)) return false;
  if (isCanvasPageClaimed(page)) return false;
  if (!isRelatedCanvasPage(page, currentPage)) return false;
  if (ignoreProjectIds && ignoreProjectIds.size) {
    const projectId = extractProjectIdFromUrl(page.url());
    if (projectId && ignoreProjectIds.has(projectId)) return false;
  }
  return true;
  \<close>
\<close>

definition isRelatedCanvasPage :: "page_view \<Rightarrow> page option \<Rightarrow> bool" where
  "isRelatedCanvasPage v sourcePage =
     (case sourcePage of
        None \<Rightarrow> True
      | Some s \<Rightarrow> page_id v = s \<or> (case opener v of None \<Rightarrow> True | Some p \<Rightarrow> p = s))"

definition isAllowed :: "registry \<Rightarrow> page option \<Rightarrow> string set \<Rightarrow> page_view \<Rightarrow> bool" where
  "isAllowed reg currentPage ignoreProjectIds v =
     (canvas v \<and> \<not> isCanvasPageClaimed (Some (page_id v)) reg
      \<and> isRelatedCanvasPage v currentPage
      \<and> \<not> (ignoreProjectIds \<noteq> {} \<and> projectId v \<noteq> [] \<and> projectId v \<in> ignoreProjectIds))"

text \<open>
  One round of the loop of \<open>waitForCanvasPage\<close>: whether \<open>Date.now() < deadline\<close>, the pages
  that \<open>getAllContextPages\<close> returns, what other tasks and closing pages do to the registry
  while the call awaits a new page, and the new page, if one arrives.
  \<^verbatim>\<open>
  while (Date.now() < deadline) {
    const pages = getAllContextPages(context);
    const canvas = pages.find(page => isAllowed(page));
    if (canvas && claimCanvasPage(canvas)) return canvas;
    const candidate = await Promise.race([...]);
    if (candidate) {
      ... await candidate.waitForLoadState(...) ...
      if (isAllowed(candidate) && claimCanvasPage(candidate)) return candidate;
    }
  }
  return null;
  \<close>
  The result of the call is the page found, with the registry as it was just before the
  claim, or \<open>null\<close>, or that the rounds given ran out; with it comes the registry after the
  call.
\<close>

record wait_round =
  in_time :: bool
  pages_seen :: "page_view list"
  interference :: "registry \<Rightarrow> registry"
  candidate :: "page_view option"

datatype wait_result = Found page registry | NotFound | StillWaiting

definition try_claim ::
  "bool \<Rightarrow> page option \<Rightarrow> string set \<Rightarrow> registry \<Rightarrow> page_view option \<Rightarrow> (page \<times> registry) option" where
  "try_claim listens currentPage ignoreProjectIds reg pv =
     (case pv of
        None \<Rightarrow> None
      | Some v \<Rightarrow>
          if isAllowed reg currentPage ignoreProjectIds v
             \<and> fst (claimCanvasPage listens (Some (page_id v)) reg)
          then Some (page_id v, snd (claimCanvasPage listens (Some (page_id v)) reg))
          else None)"

fun wait_rounds ::
  "bool \<Rightarrow> page option \<Rightarrow> string set \<Rightarrow> registry \<Rightarrow> wait_round list \<Rightarrow> wait_result \<times> registry" where
  "wait_rounds listens currentPage ignoreIds reg [] = (StillWaiting, reg)"
| "wait_rounds listens currentPage ignoreIds reg (r # rounds) =
     (if \<not> in_time r then (NotFound, reg)
      else case try_claim listens currentPage ignoreIds reg
                  (find (isAllowed reg currentPage ignoreIds) (pages_seen r)) of
             Some (p, reg') \<Rightarrow> (Found p reg, reg')
           | None \<Rightarrow>
               (let reg1 = interference r reg in
                case try_claim listens currentPage ignoreIds reg1 (candidate r) of
                  Some (p, reg') \<Rightarrow> (Found p reg1, reg')
                | None \<Rightarrow> wait_rounds listens currentPage ignoreIds reg1 rounds))"

text \<open>
  \<^verbatim>\<open>
  if (currentPage && isAllowed(currentPage) && claimCanvasPage(currentPage)) return currentPage;
  if (!context) return null;
  \<close>
\<close>

definition waitForCanvasPage ::
  "bool \<Rightarrow> bool \<Rightarrow> page_view option \<Rightarrow> string set \<Rightarrow> registry \<Rightarrow> wait_round list
     \<Rightarrow> wait_result \<times> registry" where
  "waitForCanvasPage listens has_context currentPage ignoreIds reg rounds =
     (case try_claim listens (map_option page_id currentPage) ignoreIds reg currentPage of
        Some (p, reg') \<Rightarrow> (Found p reg, reg')
      | None \<Rightarrow>
          if \<not> has_context then (NotFound, reg)
          else wait_rounds listens (map_option page_id currentPage) ignoreIds reg rounds)"

text \<open>
  \<^verbatim>\<open>
  function pickExistingPage(context, options = {}) {
    ...
    let pages = getAllContextPages(context);
    if (lovartOnly) { pages = pages.filter(page => /lovart\.ai/i.test(page.url())); }
    if (!pages.length) return null;
    const canvasPage = pages.find(page => isCanvasPage(page) && !isCanvasPageClaimed(page));
    if (canvasPage) return canvasPage;
    const homePage = pages.find(page => /lovart\.ai\/(zh\/home|home)/i.test(page.url()));
    if (homePage) return homePage;
    const nonCanvas = pages.find(page => /lovart\.ai/i.test(page.url())
                                         && !/lovart\.ai\/canvas/i.test(page.url()));
    return nonCanvas || pages.find(page => /lovart\.ai/i.test(page.url())) || pages[0];
  }
  \<close>
\<close>

definition pickExistingPage :: "bool \<Rightarrow> page_view list \<Rightarrow> registry \<Rightarrow> page option" where
  "pickExistingPage lovartOnly all_pages reg =
     (let pages = (if lovartOnly then filter lovart all_pages else all_pages) in
      case pages of
        [] \<Rightarrow> None
      | first # _ \<Rightarrow>
          (case find (\<lambda>v. canvas v \<and> \<not> isCanvasPageClaimed (Some (page_id v)) reg) pages of
             Some v \<Rightarrow> Some (page_id v)
           | None \<Rightarrow>
          (case find home pages of
             Some v \<Rightarrow> Some (page_id v)
           | None \<Rightarrow>
          (case find (\<lambda>v. lovart v \<and> \<not> canvas v) pages of
             Some v \<Rightarrow> Some (page_id v)
           | None \<Rightarrow>
          (case find lovart pages of
             Some v \<Rightarrow> Some (page_id v)
           | None \<Rightarrow> Some (page_id first))))))"

text \<open>
  Tasks that run \<open>runLovartBatch\<close> in one process, interleaved at their \<open>await\<close>s. The
  state holds the registry, the open pages, the variable \<open>page\<close> of each task, and the
  pages each task has claimed with success and not released. The steps of a task that
  touch the registry:
  \<^item> \<open>Start t\<close>: with \<open>reusePage\<close>, \<open>page = pickExistingPage(context, ...)\<close>;
  \<^item> \<open>AdoptOwnPage t\<close>:
    \<^verbatim>\<open>if (isCanvasPage(page)) { canvasPage = page; claimCanvasPage(canvasPage); ... }\<close>
    whose result is not looked at;
  \<^item> \<open>WaitForCanvas t\<close>: one round of \<open>waitForCanvasPage(context, page, ...)\<close> over the
    open pages, after which \<open>page = canvasPage\<close>;
  \<^item> \<open>Finish t\<close>: the \<open>finally\<close> block,
    \<^verbatim>\<open>
    const pagesToRelease = new Set(ownedPages);
    if (page) pagesToRelease.add(page);
    if (originPage) pagesToRelease.add(originPage);
    pagesToRelease.forEach(p => unclaimCanvasPage(p));
    \<close>
    (the model releases \<open>page\<close>; the task owns no page it opened itself);
  \<^item> \<open>ClosePage p\<close>: the page closes.
\<close>

record batch_system =
  reg :: registry
  open_pages :: "page_view list"
  task_page :: "task \<Rightarrow> page option"
  holds :: "task \<Rightarrow> page set"

datatype batch_event =
  Start task | AdoptOwnPage task | WaitForCanvas task | Finish task | ClosePage page

definition view_of :: "page_view list \<Rightarrow> page \<Rightarrow> page_view option" where
  "view_of vs p = find (\<lambda>v. page_id v = p) vs"

fun batch_step :: "batch_system \<Rightarrow> batch_event \<Rightarrow> batch_system" where
  "batch_step s (Start t) =
     s\<lparr>task_page := (task_page s)(t := pickExistingPage False (open_pages s) (reg s))\<rparr>"
| "batch_step s (AdoptOwnPage t) =
     (case task_page s t of
        None \<Rightarrow> s
      | Some p \<Rightarrow>
          (case view_of (open_pages s) p of
             None \<Rightarrow> s
           | Some v \<Rightarrow>
               if \<not> canvas v then s
               else (let r = claimCanvasPage True (Some p) (reg s)
                     in s\<lparr>reg := snd r,
                          holds := (if fst r then (holds s)(t := insert p (holds s t))
                                    else holds s)\<rparr>)))"
| "batch_step s (WaitForCanvas t) =
     (case wait_rounds True (task_page s t) {} (reg s)
             [\<lparr>in_time = True, pages_seen = open_pages s, interference = (\<lambda>r. r),
               candidate = None\<rparr>] of
        (Found p before, after) \<Rightarrow>
          s\<lparr>reg := after, task_page := (task_page s)(t := Some p),
            holds := (holds s)(t := insert p (holds s t))\<rparr>
      | _ \<Rightarrow> s)"
| "batch_step s (Finish t) =
     s\<lparr>reg := unclaimCanvasPage (task_page s t) (reg s),
       task_page := (task_page s)(t := None),
       holds := (holds s)(t := {})\<rparr>"
| "batch_step s (ClosePage p) =
     s\<lparr>reg := page_closed p (reg s),
       open_pages := filter (\<lambda>v. page_id v \<noteq> p) (open_pages s),
       holds := (\<lambda>t. holds s t - {p})\<rparr>"

definition batch_run :: "batch_system \<Rightarrow> batch_event list \<Rightarrow> batch_system" where
  "batch_run s events = foldl batch_step s events"

text \<open>A browser whose only page is a canvas page (page 0, without opener), and no claim.\<close>

definition one_canvas_tab :: batch_system where
  "one_canvas_tab =
     \<lparr>reg = \<lparr>claimedCanvasPages = {}, closeListeners = {}\<rparr>,
      open_pages = [\<lparr>page_id = 0, lovart = True, canvas = True, home = False,
                     opener = None, projectId = ''p1''\<rparr>],
      task_page = (\<lambda>t. None),
      holds = (\<lambda>t. {})\<rparr>"

section \<open>The download stage of \<open>finalizeAndDownload\<close>\<close>


























text \<open>
  The claim-set invariant: every page a task holds is in the claim set, and two tasks hold
  no page in common. A \<open>Finish\<close> step \<open>releases its own\<close> when the page it removes
  from the claim set is held by no other task.
\<close>

definition batch_inv :: "batch_system \<Rightarrow> bool" where
  "batch_inv s =
     ((\<forall>t. holds s t \<subseteq> claimedCanvasPages (reg s))
      \<and> (\<forall>t u. t \<noteq> u \<longrightarrow> holds s t \<inter> holds s u = {}))"

definition releases_own :: "batch_system \<Rightarrow> batch_event \<Rightarrow> bool" where
  "releases_own s e =
     (case e of
        Finish t \<Rightarrow> (case task_page s t of
                       None \<Rightarrow> True
                     | Some p \<Rightarrow> \<forall>u. u \<noteq> t \<longrightarrow> p \<notin> holds s u)
      | _ \<Rightarrow> True)"

fun all_release_own :: "batch_system \<Rightarrow> batch_event list \<Rightarrow> bool" where
  "all_release_own s [] = True"
| "all_release_own s (e # es) = (releases_own s e \<and> all_release_own (batch_step s e) es)"



section \<open>Properties\<close>




subsection \<open>The task queue\<close>










subsection \<open>The download pool\<close>

lemma worker_unfold:
  "worker env a st = (case loop_pass env a st of Continue st' \<Rightarrow> worker env a st' | _ \<Rightarrow> pass_state (loop_pass env a st))"
  by (subst worker.simps) (simp split: pass.splits)


lemma loop_pass_inv:
  "dl_inv env a st \<Longrightarrow> dl_inv env a (pass_state (loop_pass env a st))"
  unfolding dl_inv_def loop_pass_def Let_def asked_def
  by (auto simp: nth_list_update settled_def needs_fetch_def)

lemma worker_inv: "dl_inv env a st \<Longrightarrow> dl_inv env a (worker env a st)"
proof (induction env a st rule: worker.induct)
  case (1 env a st)
  from loop_pass_inv [OF "1.prems"] have p: "dl_inv env a (pass_state (loop_pass env a st))" .
  show ?case
  proof (cases "loop_pass env a st")
    case (Continue st')
    with p "1.IH" [OF Continue] show ?thesis
      by (simp add: worker_unfold [of env a st])
  qed (use p in \<open>simp_all add: worker_unfold [of env a st]\<close>)
qed

lemma resume_inv:
  assumes "dl_inv env a st" and "needs_fetch env a i"
  shows "dl_inv env a (resume env a st i)"
  unfolding resume_def
proof (rule worker_inv)
  show "dl_inv env a
     (if fetch env i \<noteq> []
      then st\<lparr>dl_results := (dl_results st)[i := Success (fetch env i)],
              dl_successCount := Suc (dl_successCount st)\<rparr>
      else st\<lparr>dl_results := (dl_results st)[i := Failure link_failed]\<rparr>)"
    using assms unfolding dl_inv_def needs_fetch_def
    by (auto simp: nth_list_update settled_def)
qed

lemma start_workers_inv: "dl_inv env a st \<Longrightarrow> dl_inv env a (start_workers n env a st)"
  by (induction n arbitrary: st) (auto intro: worker_inv)

lemma drain_inv: "dl_inv env a st \<Longrightarrow> dl_inv env a (drain env a st)"
proof (induction env a st rule: drain.induct)
  case (1 env a st)
  show ?case
  proof (cases "inflight st = []")
    case True
    with "1.prems" show ?thesis by (simp add: drain.simps [of env a st])
  next
    case False
    define k where "k = order env (completed st) mod length (inflight st)"
    from False have kl: "k < length (inflight st)" by (simp add: k_def)
    define st1 where "st1 = st\<lparr>inflight := take k (inflight st) @ drop (Suc k) (inflight st),
                 completed := Suc (completed st)\<rparr>"
    have sub: "set (inflight st1) \<subseteq> set (inflight st)"
      by (auto simp: st1_def dest: in_set_takeD in_set_dropD)
    have nf: "needs_fetch env a (inflight st ! k)"
      using "1.prems" kl by (simp add: dl_inv_def)
    have "dl_inv env a st1"
      using "1.prems" sub unfolding dl_inv_def by (auto simp: st1_def)
    then have "dl_inv env a (resume env a st1 (inflight st ! k))"
      using nf by (rule resume_inv)
    from "1.IH" [OF False k_def this [unfolded st1_def]]
    show ?thesis using False by (simp add: drain.simps [of env a st] k_def Let_def)
  qed
qed

lemma initial_inv: "dl_inv env a (dl_initial a)"
  by (simp add: dl_inv_def dl_initial_def)

lemma final_inv: "dl_inv env a (dl_final env a)"
  unfolding dl_final_def by (intro drain_inv start_workers_inv initial_inv)

lemma drain_inflight: "inflight (drain env a st) = []"
  by (induction env a st rule: drain.induct) (simp add: drain.simps Let_def)


lemma loop_pass_threw:
  "never_aborted env \<Longrightarrow> threw (pass_state (loop_pass env a st)) = threw st"
  unfolding loop_pass_def Let_def asked_def never_aborted_def by auto

lemma worker_threw: "never_aborted env \<Longrightarrow> threw (worker env a st) = threw st"
proof (induction env a st rule: worker.induct)
  case (1 env a st)
  from loop_pass_threw [OF "1.prems", of a st]
  have p: "threw (pass_state (loop_pass env a st)) = threw st" .
  show ?case
  proof (cases "loop_pass env a st")
    case (Continue st')
    with p "1.IH" [OF Continue "1.prems"] show ?thesis
      by (simp add: worker_unfold [of env a st])
  qed (use p in \<open>simp_all add: worker_unfold [of env a st]\<close>)
qed

lemma start_workers_threw:
  "never_aborted env \<Longrightarrow> threw (start_workers n env a st) = threw st"
  by (induction n arbitrary: st) (auto simp: worker_threw)

lemma drain_threw: "never_aborted env \<Longrightarrow> threw (drain env a st) = threw st"
proof (induction env a st rule: drain.induct)
  case (1 env a st)
  show ?case
  proof (cases "inflight st = []")
    case True
    then show ?thesis by (simp add: drain.simps [of env a st])
  next
    case False
    from "1.IH" [OF False refl "1.prems"] False show ?thesis
      by (simp add: drain.simps [of env a st] Let_def resume_def worker_threw [OF "1.prems"])
  qed
qed

lemma final_threw: "never_aborted env \<Longrightarrow> \<not> threw (dl_final env a)"
  by (simp add: dl_final_def drain_threw start_workers_threw dl_initial_def)

lemma loop_pass_full:
  assumes "never_late env a" and "dl_stopAt a = 0" and "never_aborted env"
    and "dl_full env a st"
  shows "dl_full env a (pass_state (loop_pass env a st))"
proof -
  have na: "\<not> aborted env t" for t
    using assms(3) by (simp add: never_aborted_def)
  have nl: "\<not> past_deadline env a s" for s
    using assms(1) by (fastforce simp: never_late_def past_deadline_def not_less [symmetric])
  have ns: "\<not> stop_reached a s" for s
    using assms(2) by (simp add: stop_reached_def)
  show ?thesis
    using assms(4) unfolding dl_full_def loop_pass_def Let_def asked_def
    by (auto simp: nl ns na nth_list_update settled_def needs_fetch_def less_Suc_eq)
qed

lemma loop_pass_progressed:
  assumes "never_late env a" and "dl_stopAt a = 0"
  shows "case loop_pass env a st of Continue st' \<Rightarrow> True | r \<Rightarrow> progressed a (pass_state r)"
proof -
  have nl: "\<not> past_deadline env a s" for s
    using assms(1) by (fastforce simp: never_late_def past_deadline_def not_less [symmetric])
  have ns: "\<not> stop_reached a s" for s
    using assms(2) by (simp add: stop_reached_def)
  show ?thesis
    unfolding loop_pass_def Let_def asked_def progressed_def
    by (auto simp: nl ns)
qed

lemma worker_full:
  "never_late env a \<Longrightarrow> dl_stopAt a = 0 \<Longrightarrow> never_aborted env \<Longrightarrow> dl_full env a st \<Longrightarrow>
     dl_full env a (worker env a st) \<and> progressed a (worker env a st)"
proof (induction env a st rule: worker.induct)
  case (1 env a st)
  from loop_pass_full [OF "1.prems"]
  have p: "dl_full env a (pass_state (loop_pass env a st))" .
  from loop_pass_progressed [OF "1.prems"(1,2), of st]
  have q: "case loop_pass env a st of Continue st' \<Rightarrow> True | r \<Rightarrow> progressed a (pass_state r)" .
  show ?case
  proof (cases "loop_pass env a st")
    case (Continue st')
    with p "1.IH" [OF Continue "1.prems"(1,2,3)] show ?thesis
      by (simp add: worker_unfold [of env a st])
  qed (use p q in \<open>simp_all add: worker_unfold [of env a st]\<close>)
qed


lemma remove_nth_set:
  assumes "k < length xs"
  shows "set (take k xs @ drop (Suc k) xs) \<subseteq> set xs"
    and "j \<in> set xs \<Longrightarrow> j \<noteq> xs ! k \<Longrightarrow> j \<in> set (take k xs @ drop (Suc k) xs)"
proof -
  show "set (take k xs @ drop (Suc k) xs) \<subseteq> set xs"
    by (auto dest: in_set_takeD in_set_dropD)
  have "set (take k xs @ xs ! k # drop (Suc k) xs) = set xs"
    using assms by (simp add: id_take_nth_drop [symmetric])
  then show "j \<in> set xs \<Longrightarrow> j \<noteq> xs ! k \<Longrightarrow> j \<in> set (take k xs @ drop (Suc k) xs)"
    by auto
qed

lemma dl_limit_pos: "0 < dl_limit a"
proof (cases "concurrency a")
  case (Num q)
  have "1 \<le> max 1 (min 8 \<lfloor>q\<rfloor>)" by (rule max.cobounded1)
  then show ?thesis using Num by (simp add: dl_limit_def)
qed (simp_all add: dl_limit_def)
lemma settle_full:
  assumes full: "dl_full env a st" and k: "k < length (inflight st)"
    and st1: "st1 = st\<lparr>inflight := take k (inflight st) @ drop (Suc k) (inflight st),
                       completed := Suc (completed st)\<rparr>"
    and st2: "st2 = (if fetch env (inflight st ! k) \<noteq> []
        then st1\<lparr>dl_results := (dl_results st1)[inflight st ! k := Success (fetch env (inflight st ! k))],
                 dl_successCount := Suc (dl_successCount st1)\<rparr>
        else st1\<lparr>dl_results := (dl_results st1)[inflight st ! k := Failure link_failed]\<rparr>)"
  shows "dl_full env a st2"
proof -
  let ?i = "inflight st ! k"
  have mem: "?i \<in> set (inflight st)" using k by simp
  from full mem have nf: "needs_fetch env a ?i" and lt: "?i < cursor st"
    by (auto simp: dl_full_def)
  have len: "length (dl_results st) = dl_count a" using full by (simp add: dl_full_def)
  have r2: "dl_results st2 = (dl_results st)[?i := settled env a ?i]"
    using nf by (simp add: st2 st1 settled_def needs_fetch_def)
  have c2: "cursor st2 = cursor st" by (simp add: st2 st1)
  have i2: "inflight st2 = take k (inflight st) @ drop (Suc k) (inflight st)"
    by (simp add: st2 st1)
  show ?thesis
    unfolding dl_full_def
  proof (intro conjI ballI allI impI)
    show "length (dl_results st2) = dl_count a" by (simp add: r2 len)
  next
    fix j assume "j \<in> set (inflight st2)"
    with remove_nth_set(1) [OF k] have "j \<in> set (inflight st)" by (auto simp: i2)
    with full show "j < cursor st2" "needs_fetch env a j" by (auto simp: dl_full_def c2)
  next
    fix j assume j: "j < dl_count a" and nin: "j \<notin> set (inflight st2)"
    show "dl_results st2 ! j = (if j < cursor st2 then settled env a j else Failure missing_link)"
    proof (cases "j = ?i")
      case True
      with lt j len show ?thesis by (simp add: r2 c2)
    next
      case False
      with nin remove_nth_set(2) [OF k, of j] have "j \<notin> set (inflight st)" by (auto simp: i2)
      with full j have "dl_results st ! j = (if j < cursor st then settled env a j else Failure missing_link)"
        by (simp add: dl_full_def)
      with False show ?thesis by (simp add: r2 c2)
    qed
  qed
qed

lemma resume_full:
  assumes nl: "never_late env a" and ns: "dl_stopAt a = 0" and na: "never_aborted env"
    and full: "dl_full env a st" and k: "k < length (inflight st)"
  shows "dl_full env a (resume env a
           (st\<lparr>inflight := take k (inflight st) @ drop (Suc k) (inflight st),
               completed := Suc (completed st)\<rparr>) (inflight st ! k))
       \<and> progressed a (resume env a
           (st\<lparr>inflight := take k (inflight st) @ drop (Suc k) (inflight st),
               completed := Suc (completed st)\<rparr>) (inflight st ! k))"
  unfolding resume_def
  by (rule worker_full [OF nl ns na]) (rule settle_full [OF full k refl refl])

lemma start_workers_full:
  "never_late env a \<Longrightarrow> dl_stopAt a = 0 \<Longrightarrow> never_aborted env \<Longrightarrow> dl_full env a st \<Longrightarrow>
     (n = 0 \<longrightarrow> progressed a st) \<Longrightarrow>
     dl_full env a (start_workers n env a st) \<and> progressed a (start_workers n env a st)"
proof (induction n arbitrary: st)
  case 0
  then show ?case by simp
next
  case (Suc n)
  from worker_full [OF Suc.prems(1,2,3,4)]
  have w: "dl_full env a (worker env a st)" "progressed a (worker env a st)" by auto
  from Suc.IH [OF Suc.prems(1,2,3) w(1)] w(2) show ?case by simp
qed

lemma drain_full:
  "never_late env a \<Longrightarrow> dl_stopAt a = 0 \<Longrightarrow> never_aborted env \<Longrightarrow> dl_full env a st \<Longrightarrow>
     progressed a st \<Longrightarrow>
     dl_full env a (drain env a st) \<and> progressed a (drain env a st)"
proof (induction env a st rule: drain.induct)
  case (1 env a st)
  show ?case
  proof (cases "inflight st = []")
    case True
    with "1.prems" show ?thesis by (simp add: drain.simps [of env a st])
  next
    case False
    define k where "k = order env (completed st) mod length (inflight st)"
    from False have kl: "k < length (inflight st)" by (simp add: k_def)
    from resume_full [OF "1.prems"(1,2,3,4) kl]
    have r: "dl_full env a (resume env a
           (st\<lparr>inflight := take k (inflight st) @ drop (Suc k) (inflight st),
               completed := Suc (completed st)\<rparr>) (inflight st ! k))"
      "progressed a (resume env a
           (st\<lparr>inflight := take k (inflight st) @ drop (Suc k) (inflight st),
               completed := Suc (completed st)\<rparr>) (inflight st ! k))" by auto
    from "1.IH" [OF False k_def "1.prems"(1,2,3) r]
    show ?thesis using False by (simp add: drain.simps [of env a st] k_def Let_def)
  qed
qed

lemma initial_full: "dl_full env a (dl_initial a)"
  by (simp add: dl_full_def dl_initial_def)

lemma final_full:
  assumes "never_late env a" and "dl_stopAt a = 0" and "never_aborted env"
  shows "dl_results (dl_final env a) = map (settled env a) [0..<dl_count a]"
proof -
  from dl_limit_pos [of a] have n0: "dl_limit a \<noteq> 0" by simp
  from start_workers_full [OF assms(1,2,3) initial_full, of "dl_limit a"] n0
  have s: "dl_full env a (start_workers (dl_limit a) env a (dl_initial a))"
    "progressed a (start_workers (dl_limit a) env a (dl_initial a))" by auto
  from drain_full [OF assms(1,2,3) s]
  have f: "dl_full env a (dl_final env a)" and p: "progressed a (dl_final env a)"
    by (auto simp: dl_final_def)
  have e: "inflight (dl_final env a) = []" by (simp add: dl_final_def drain_inflight)
  from p e final_threw [OF assms(3), of a] have c: "dl_count a \<le> cursor (dl_final env a)"
    by (simp add: progressed_def)
  show ?thesis
  proof (rule nth_equalityI)
    show "length (dl_results (dl_final env a)) = length (map (settled env a) [0..<dl_count a])"
      using f by (simp add: dl_full_def)
  next
    fix i assume "i < length (dl_results (dl_final env a))"
    with f have i: "i < dl_count a" by (simp add: dl_full_def)
    with f e c show "dl_results (dl_final env a) ! i = map (settled env a) [0..<dl_count a] ! i"
      by (simp add: dl_full_def)
  qed
qed

lemma final_length: "length (dl_results (dl_final env a)) = dl_count a"
  using final_inv [of env a] by (simp add: dl_inv_def)

lemma final_missing_url:
  "i < dl_count a \<Longrightarrow> url_at a i = [] \<Longrightarrow> dl_results (dl_final env a) ! i = Failure missing_link"
  using final_inv [of env a] by (auto simp: dl_inv_def settled_def)

lemma final_existing:
  "i < dl_count a \<Longrightarrow> url_at a i \<noteq> [] \<Longrightarrow> file_exists env i \<Longrightarrow>
     dl_results (dl_final env a) ! i = Success (targetPath (outputDir a) i)
     \<or> dl_results (dl_final env a) ! i = Failure missing_link"
  using final_inv [of env a] by (auto simp: dl_inv_def settled_def)

lemma final_fetched: "i \<in> set (fetched (dl_final env a)) \<Longrightarrow> \<not> file_exists env i"
  using final_inv [of env a] by (auto simp: dl_inv_def needs_fetch_def)

lemma final_all_present:
  assumes "never_late env a" and "dl_stopAt a = 0" and "never_aborted env"
    and "\<forall>i < dl_count a. url_at a i \<noteq> [] \<and> file_exists env i"
  shows "dl_results (dl_final env a) = map (\<lambda>i. Success (targetPath (outputDir a) i)) [0..<dl_count a]"
    and "fetched (dl_final env a) = []"
proof -
  have "map (settled env a) [0..<dl_count a]
      = map (\<lambda>i. Success (targetPath (outputDir a) i)) [0..<dl_count a]"
    using assms(4) by (simp add: settled_def)
  with final_full [OF assms(1,2,3)]
  show "dl_results (dl_final env a) = map (\<lambda>i. Success (targetPath (outputDir a) i)) [0..<dl_count a]"
    by simp
  show "fetched (dl_final env a) = []"
  proof (rule ccontr)
    assume "fetched (dl_final env a) \<noteq> []"
    then obtain i where "i \<in> set (fetched (dl_final env a))"
      by (cases "fetched (dl_final env a)") auto
    with final_inv [of env a] have "needs_fetch env a i" by (simp add: dl_inv_def)
    with assms(4) show False unfolding needs_fetch_def by blast
  qed
qed


lemma never_late_files_present: "never_late files_present (two_images b)"
  by (simp add: never_late_def two_images_def dl_deadline_def)

lemma never_aborted_files_present: "never_aborted files_present"
  by (simp add: never_aborted_def files_present_def)

lemma two_images_facts:
  "dl_count (two_images True) = 2 \<and> dl_stopAt (two_images True) = 0
   \<and> url_at (two_images True) 0 = ''u1'' \<and> url_at (two_images True) 1 = ''u2''
   \<and> outputDir (two_images True) = ''out''
   \<and> map (\<lambda>i. Success (targetPath ''out'' i)) [0..<2]
       = [Success ''out/001.png'', Success ''out/002.png'']"
  by code_simp

lemma two_images_all_present:
  "\<forall>i < dl_count (two_images True). url_at (two_images True) i \<noteq> [] \<and> file_exists files_present i"
  by (simp add: two_images_def dl_count_def url_at_def files_present_def less_Suc_eq
      numeral_2_eq_2 nth_Cons')

text \<open>
  C10. Every array that \<open>downloadImagesWithConcurrency\<close> returns has exactly
  \<open>max(0, floor(expectedCount))\<close> slots (none when \<open>expectedCount\<close> is not finite), however
  many URLs were supplied, and each of its slots whose URL is missing is the failure with
  the reason "missing image link". The call returns an array whenever the abort signal is
  not set (an aborted call throws). When \<open>expectedCount\<close> is 0, negative, below 1 or not
  finite the call returns the empty array and starts no download.
\<close>

theorem download_result_length:
  "(downloadImagesWithConcurrency env a = (Inr rs, started) \<longrightarrow>
      int (length rs) = (case expectedCount a of Num q \<Rightarrow> max 0 \<lfloor>q\<rfloor> | _ \<Rightarrow> 0)
      \<and> (\<forall>i < length rs. url_at a i = [] \<longrightarrow> rs ! i = Failure missing_link))
   \<and> (never_aborted env \<longrightarrow> (\<exists>rs started. downloadImagesWithConcurrency env a = (Inr rs, started)))
   \<and> (\<not> isFinite (expectedCount a) \<or> (\<exists>q. expectedCount a = Num q \<and> q < 1) \<longrightarrow>
        downloadImagesWithConcurrency env a = (Inr [], []))"
proof (intro conjI impI)
  assume r: "downloadImagesWithConcurrency env a = (Inr rs, started)"
  have c: "int (dl_count a) = (case expectedCount a of Num q \<Rightarrow> max 0 \<lfloor>q\<rfloor> | _ \<Rightarrow> 0)"
    by (simp add: dl_count_def split: jsnum.splits)
  have l: "length rs = dl_count a"
    using r final_length [of env a]
    by (auto simp: downloadImagesWithConcurrency_def Let_def split: if_splits)
  with c show "int (length rs) = (case expectedCount a of Num q \<Rightarrow> max 0 \<lfloor>q\<rfloor> | _ \<Rightarrow> 0)"
    by simp
  show "\<forall>i < length rs. url_at a i = [] \<longrightarrow> rs ! i = Failure missing_link"
  proof (intro allI impI)
    fix i assume i: "i < length rs" and u: "url_at a i = []"
    show "rs ! i = Failure missing_link"
    proof (cases "dl_count a = 0")
      case True
      with i l show ?thesis by simp
    next
      case False
      with r have "rs = dl_results (dl_final env a)"
        by (auto simp: downloadImagesWithConcurrency_def Let_def split: if_splits)
      with final_missing_url [of i a env] i l u show ?thesis by simp
    qed
  qed
next
  assume "never_aborted env"
  from final_threw [OF this, of a]
  show "\<exists>rs started. downloadImagesWithConcurrency env a = (Inr rs, started)"
    by (simp add: downloadImagesWithConcurrency_def Let_def)
next
  assume "\<not> isFinite (expectedCount a) \<or> (\<exists>q. expectedCount a = Num q \<and> q < 1)"
  then have "dl_count a = 0"
  proof
    assume "\<not> isFinite (expectedCount a)"
    then show ?thesis by (cases "expectedCount a") (simp_all add: dl_count_def)
  next
    assume "\<exists>q. expectedCount a = Num q \<and> q < 1"
    then obtain q where q: "expectedCount a = Num q" "q < 1" by blast
    then have "\<lfloor>q\<rfloor> \<le> 0" by (simp add: floor_le_iff)
    with q show ?thesis by (simp add: dl_count_def)
  qed
  then show "downloadImagesWithConcurrency env a = (Inr [], [])"
    by (simp add: downloadImagesWithConcurrency_def)
qed

lemma example_present_result:
  "downloadImagesWithConcurrency files_present (two_images True)
     = (Inr [Success ''out/001.png'', Success ''out/002.png''], [])"
  by code_simp

lemma example_one_url:
  "url_at ((two_images True)\<lparr>urls := [''u1'']\<rparr>) 1 = []
   \<and> downloadImagesWithConcurrency files_present ((two_images True)\<lparr>urls := [''u1'']\<rparr>)
     = (Inr [Success ''out/001.png'', Failure missing_link], [])"
  by code_simp

theorem download_result_length_witness:
  "downloadImagesWithConcurrency files_present ((two_images True)\<lparr>urls := [''u1'']\<rparr>)
     = (Inr [Success ''out/001.png'', Failure missing_link], [])
   \<and> length [Success ''out/001.png'', Failure missing_link] = 2
   \<and> url_at ((two_images True)\<lparr>urls := [''u1'']\<rparr>) 1 = []
   \<and> never_aborted files_present
   \<and> \<not> isFinite (expectedCount ((two_images True)\<lparr>expectedCount := NaN\<rparr>))
   \<and> downloadImagesWithConcurrency abort_requested ((two_images True)\<lparr>expectedCount := NaN\<rparr>)
       = (Inr [], [])"
  using download_result_length [of files_present "(two_images True)\<lparr>urls := [''u1'']\<rparr>"
      "[Success ''out/001.png'', Failure missing_link]" "[]"]
    download_result_length [of abort_requested "(two_images True)\<lparr>expectedCount := NaN\<rparr>"
      "[]" "[]"]
    example_one_url never_aborted_files_present
  by simp

text \<open>
  C6 (amended). The pool starts a download only for an index whose target file does not
  exist, so a run in which all target files exist starts none. A slot whose URL is known
  and whose target file exists is, in the returned array, either the success with the
  path of that file or still the initial failure (no worker reached the index: the pool
  had stopped at the minimum-success threshold, or the deadline had passed). When the
  pool is not told to stop early (\<open>stopAt = 0\<close>: \<open>downloadUntilExpected\<close> is set, the
  default of the runner, or \<open>minSuccessCount\<close> is not positive), no reading of the clock is
  past the deadline, the abort signal is not set, and every index has a URL and an
  existing target file, the call returns all slots successful, each with the path of its
  existing file, and starts no download.
\<close>

theorem download_skips_existing:
  "(\<forall>i \<in> set (snd (downloadImagesWithConcurrency env a)). \<not> file_exists env i)
   \<and> (downloadImagesWithConcurrency env a = (Inr rs, started) \<and> i < dl_count a
        \<and> url_at a i \<noteq> [] \<and> file_exists env i \<longrightarrow>
          rs ! i = Success (targetPath (outputDir a) i) \<or> rs ! i = Failure missing_link)
   \<and> (never_late env a \<and> dl_stopAt a = 0 \<and> never_aborted env
        \<and> (\<forall>i < dl_count a. url_at a i \<noteq> [] \<and> file_exists env i) \<longrightarrow>
          downloadImagesWithConcurrency env a
            = (Inr (map (\<lambda>i. Success (targetPath (outputDir a) i)) [0..<dl_count a]), []))"
proof (intro conjI impI ballI)
  fix j assume "j \<in> set (snd (downloadImagesWithConcurrency env a))"
  then have "j \<in> set (fetched (dl_final env a))"
    by (auto simp: downloadImagesWithConcurrency_def Let_def split: if_splits)
  then show "\<not> file_exists env j" by (rule final_fetched)
next
  assume h: "downloadImagesWithConcurrency env a = (Inr rs, started) \<and> i < dl_count a
        \<and> url_at a i \<noteq> [] \<and> file_exists env i"
  then have "rs = dl_results (dl_final env a)"
    by (auto simp: downloadImagesWithConcurrency_def Let_def split: if_splits)
  with final_existing [of i a env] h
  show "rs ! i = Success (targetPath (outputDir a) i) \<or> rs ! i = Failure missing_link"
    by simp
next
  assume h: "never_late env a \<and> dl_stopAt a = 0 \<and> never_aborted env
        \<and> (\<forall>i < dl_count a. url_at a i \<noteq> [] \<and> file_exists env i)"
  then have nl: "never_late env a" and ns: "dl_stopAt a = 0" and na: "never_aborted env"
    and al: "\<forall>i < dl_count a. url_at a i \<noteq> [] \<and> file_exists env i" by auto
  from final_all_present [OF nl ns na al] final_threw [OF na, of a]
  show "downloadImagesWithConcurrency env a
            = (Inr (map (\<lambda>i. Success (targetPath (outputDir a) i)) [0..<dl_count a]), [])"
    by (simp add: downloadImagesWithConcurrency_def Let_def)
qed

theorem download_skips_existing_witness:
  "downloadImagesWithConcurrency files_present (two_images True)
     = (Inr [Success ''out/001.png'', Success ''out/002.png''], [])
   \<and> (1::nat) < dl_count (two_images True) \<and> url_at (two_images True) 1 \<noteq> []
   \<and> file_exists files_present 1
   \<and> never_late files_present (two_images True) \<and> dl_stopAt (two_images True) = 0
   \<and> never_aborted files_present
   \<and> url_at (two_images True) 0 \<noteq> [] \<and> file_exists files_present 0
   \<and> [Success ''out/001.png'', Success ''out/002.png''] ! 1 = Success (targetPath ''out'' 1)"
  using download_skips_existing [of files_present "two_images True"
      "[Success ''out/001.png'', Success ''out/002.png'']" "[]" 1]
    example_present_result never_late_files_present [of True] never_aborted_files_present
    two_images_facts two_images_all_present
  by (simp add: files_present_def)

text \<open>
  The claim as stated fails when the pool stops early: with \<open>downloadUntilExpected\<close>
  unset and a minimum of one success, the second slot stays a failure although its
  target file exists and its URL is known.
\<close>

theorem download_early_stop_counterexample:
  "file_exists files_present 1
   \<and> url_at (two_images False) 1 = ''u2''
   \<and> downloadImagesWithConcurrency files_present (two_images False)
       = (Inr [Success ''out/001.png'', Failure missing_link], [])"
  by code_simp


subsection \<open>Zip archives\<close>













subsection \<open>The pollers\<close>

lemma ready_loop_append:
  "ready_loop d e m n pre = (Polling, k) \<Longrightarrow>
     ready_loop d e m n (pre @ rest) = ready_loop d e m (n + length pre) rest \<and> k = n + length pre"
proof (induction pre arbitrary: n)
  case Nil
  then show ?case by simp
next
  case (Cons obs pre)
  from Cons.prems have lt: "of_int (obs_now obs) < d"
    by (auto split: if_splits)
  with Cons.prems have it: "ready_iteration e m obs = Polling"
    by (auto split: ready_outcome.splits)
  with lt Cons.prems have "ready_loop d e m (Suc n) pre = (Polling, k)" by simp
  from Cons.IH [OF this] lt it show ?case by simp
qed

text \<open>
  C4. When an iteration of \<open>waitForGenerationReady\<close> that is begun before the deadline
  finds the error indicator (a matching selector or the error text), the poller raises in
  that very iteration, whatever time is left and whatever images, busy flags or later
  observations there are: it does not poll again and does not wait for the deadline. The
  error is \<open>generation_error\<close>; only when the page is closed or the abort signal is set,
  which the iteration checks first, it is \<open>PAGE_CLOSED\<close> or \<open>lovart_aborted\<close> instead.
\<close>

theorem error_indicator_raises_at_once:
  assumes "waitForGenerationReady start expected minCount timeoutMs before = (Polling, k)"
    and "of_int (obs_now obs) < ready_deadline start timeoutMs"
    and "errorSelectorHit obs \<or> errorText obs = Some True"
  shows "waitForGenerationReady start expected minCount timeoutMs (before @ obs # later)
           = (Raised (if \<not> pageOpen obs then PageClosed
                      else if abortRequested obs then LovartAborted
                      else GenerationError), length before + 1)"
proof -
  have "hasGenerationErrorIndicator obs"
    using assms(3) by (auto simp: hasGenerationErrorIndicator_def)
  then have "ready_iteration expected (ready_minTarget expected minCount) obs
      = Raised (if \<not> pageOpen obs then PageClosed
                else if abortRequested obs then LovartAborted
                else GenerationError)"
    by (simp add: ready_iteration_def)
  with assms(2) ready_loop_append [OF assms(1) [unfolded waitForGenerationReady_def], of "obs # later"]
  show ?thesis by (simp add: waitForGenerationReady_def)
qed

lemma example_polling:
  "waitForGenerationReady 0 (Num 4) (Num 3) (Num 60000) [quiet_page 0, quiet_page 1000]
     = (Polling, 2)"
  by code_simp

theorem error_indicator_raises_at_once_witness:
  "waitForGenerationReady 0 (Num 4) (Num 3) (Num 60000) [quiet_page 0, quiet_page 1000] = (Polling, 2)
   \<and> of_int (obs_now (failed_page 2000)) < ready_deadline 0 (Num 60000)
   \<and> errorText (failed_page 2000) = Some True
   \<and> waitForGenerationReady 0 (Num 4) (Num 3) (Num 60000)
        ([quiet_page 0, quiet_page 1000] @ failed_page 2000 # [quiet_page 3000])
      = (Raised GenerationError, 3)"
  using error_indicator_raises_at_once [of 0 "Num 4" "Num 3" "Num 60000"
      "[quiet_page 0, quiet_page 1000]" 2 "failed_page 2000" "[quiet_page 3000]"]
    example_polling
  by (simp add: failed_page_def quiet_page_def ready_deadline_def)











subsection \<open>The claim set\<close>

lemma claimCanvasPage_result:
  "claimCanvasPage l pg r = (True, r') \<Longrightarrow>
     \<exists>p. pg = Some p \<and> p \<notin> claimedCanvasPages r
          \<and> claimedCanvasPages r' = insert p (claimedCanvasPages r)"
  "claimCanvasPage l pg r = (False, r') \<Longrightarrow> r' = r"
  by (auto simp: claimCanvasPage_def split: option.splits if_splits)

lemma claimCanvasPage_again:
  "p \<in> claimedCanvasPages r \<Longrightarrow> claimCanvasPage l (Some p) r = (False, r)"
  by (simp add: claimCanvasPage_def)

lemma try_claim_fresh:
  "try_claim l cur ign r pv = Some (p, r') \<Longrightarrow>
     p \<notin> claimedCanvasPages r \<and> claimedCanvasPages r' = insert p (claimedCanvasPages r)"
  by (auto simp: try_claim_def claimCanvasPage_def isAllowed_def isCanvasPageClaimed_def
      split: option.splits if_splits)

lemma wait_rounds_fresh:
  "wait_rounds l cur ign r rounds = (Found p before, after) \<Longrightarrow>
     p \<notin> claimedCanvasPages before
     \<and> claimedCanvasPages after = insert p (claimedCanvasPages before)"
proof (induction rounds arbitrary: r)
  case Nil
  then show ?case by simp
next
  case (Cons x rounds)
  show ?case
  proof (cases "in_time x")
    case False
    with Cons.prems show ?thesis by simp
  next
    case True
    show ?thesis
    proof (cases "try_claim l cur ign r (find (isAllowed r cur ign) (pages_seen x))")
      case (Some a)
      obtain q r' where a: "a = (q, r')" by (cases a)
      from Cons.prems True Some a have "q = p" "before = r" "after = r'" by simp_all
      with Some a try_claim_fresh show ?thesis by blast
    next
      case None
      show ?thesis
      proof (cases "try_claim l cur ign (interference x r) (candidate x)")
        case (Some a)
        obtain q r' where a: "a = (q, r')" by (cases a)
        from Cons.prems True None Some a
        have "q = p" "before = interference x r" "after = r'" by (simp_all add: Let_def)
        with Some a try_claim_fresh show ?thesis by blast
      next
        case N2: None
        from Cons.prems True None N2
        have "wait_rounds l cur ign (interference x r) rounds = (Found p before, after)"
          by (simp add: Let_def)
        then show ?thesis by (rule Cons.IH)
      qed
    qed
  qed
qed

lemma waitForCanvasPage_fresh:
  assumes "waitForCanvasPage l c cur ign r rounds = (Found p before, after)"
  shows "p \<notin> claimedCanvasPages before
         \<and> claimedCanvasPages after = insert p (claimedCanvasPages before)"
proof (cases "try_claim l (map_option page_id cur) ign r cur")
  case (Some a)
  obtain q r' where a: "a = (q, r')" by (cases a)
  from assms Some a have "q = p" "before = r" "after = r'"
    by (simp_all add: waitForCanvasPage_def)
  with Some a try_claim_fresh show ?thesis by blast
next
  case None
  with assms have "wait_rounds l (map_option page_id cur) ign r rounds = (Found p before, after)"
    by (simp add: waitForCanvasPage_def split: if_splits)
  then show ?thesis by (rule wait_rounds_fresh)
qed

lemma batch_step_inv:
  assumes "batch_inv s" and "releases_own s e"
  shows "batch_inv (batch_step s e)"
proof (cases e)
  case (Start t)
  with assms show ?thesis by (simp add: batch_inv_def)
next
  case (AdoptOwnPage t)
  show ?thesis
  proof (cases "task_page s t")
    case None
    with assms AdoptOwnPage show ?thesis by simp
  next
    case (Some p)
    show ?thesis
    proof (cases "view_of (open_pages s) p")
      case None
      with assms AdoptOwnPage Some show ?thesis by simp
    next
      case V: (Some v)
      show ?thesis
      proof (cases "canvas v \<and> p \<notin> claimedCanvasPages (reg s)")
        case True
        with assms AdoptOwnPage Some V show ?thesis
          by (auto simp: claimCanvasPage_def Let_def batch_inv_def)
      next
        case False
        with assms AdoptOwnPage Some V show ?thesis
          by (auto simp: claimCanvasPage_def Let_def batch_inv_def)
      qed
    qed
  qed
next
  case (WaitForCanvas t)
  let ?w = "wait_rounds True (task_page s t) {} (reg s)
             [\<lparr>in_time = True, pages_seen = open_pages s, interference = (\<lambda>r. r),
               candidate = None\<rparr>]"
  obtain res after where w: "?w = (res, after)" by (cases ?w)
  show ?thesis
  proof (cases res)
    case (Found p before)
    from w Found have fresh: "p \<notin> claimedCanvasPages before
        \<and> claimedCanvasPages after = insert p (claimedCanvasPages before)"
      using wait_rounds_fresh by blast
    from w Found have b: "before = reg s"
      by (simp add: Let_def split: option.splits prod.splits)
    from w Found have step: "batch_step s e =
        s\<lparr>reg := after, task_page := (task_page s)(t := Some p),
          holds := (holds s)(t := insert p (holds s t))\<rparr>"
      using WaitForCanvas by simp
    from assms(1) fresh b show ?thesis unfolding step
      by (auto simp: batch_inv_def)
  next
    case NotFound
    with w assms WaitForCanvas show ?thesis by simp
  next
    case StillWaiting
    with w assms WaitForCanvas show ?thesis by simp
  qed
next
  case (Finish t)
  with assms show ?thesis
    by (auto simp: batch_inv_def unclaimCanvasPage_def releases_own_def split: option.splits)
next
  case (ClosePage p)
  with assms show ?thesis
    by (auto simp: batch_inv_def page_closed_def disjoint_iff)
qed

lemma batch_run_inv:
  "batch_inv s \<Longrightarrow> all_release_own s es \<Longrightarrow> batch_inv (batch_run s es)"
  unfolding batch_run_def by (induction es arbitrary: s) (auto intro: batch_step_inv)

lemma one_canvas_tab_inv: "batch_inv one_canvas_tab"
  by (simp add: batch_inv_def one_canvas_tab_def)

text \<open>
  C2. The parts of the statement about \<open>waitForCanvasPage\<close> and \<open>claimCanvasPage\<close> hold
  (lemmas \<open>waitForCanvasPage_fresh\<close>, \<open>claimCanvasPage_again\<close>), and the claim sets of the
  tasks stay disjoint as long as a finishing task removes only claims of its own
  (\<open>batch_run_inv\<close>). The conclusion drawn from them fails in \<open>runLovartBatch\<close>: on a
  browser whose only page is canvas page 0, task 1 picks and claims the page; task 2
  picks the same page, as the fall-back of \<open>pickExistingPage\<close> returns a claimed canvas
  page, and ends; its cleanup removes page 0 from the claim set although task 1 holds it;
  task 3 then picks and claims page 0, and tasks 1 and 3 hold the same page at once.
\<close>

theorem claim_released_by_other_task:
  "task_page (batch_run one_canvas_tab [Start 1, AdoptOwnPage 1, Start 2]) 2 = Some 0
   \<and> 0 \<in> claimedCanvasPages (reg (batch_run one_canvas_tab [Start 1, AdoptOwnPage 1, Start 2]))
   \<and> holds (batch_run one_canvas_tab [Start 1, AdoptOwnPage 1, Start 2, Finish 2]) 1 = {0}
   \<and> claimedCanvasPages
        (reg (batch_run one_canvas_tab [Start 1, AdoptOwnPage 1, Start 2, Finish 2])) = {}
   \<and> holds (batch_run one_canvas_tab
              [Start 1, AdoptOwnPage 1, Start 2, Finish 2, Start 3, AdoptOwnPage 3]) 1 = {0}
   \<and> holds (batch_run one_canvas_tab
              [Start 1, AdoptOwnPage 1, Start 2, Finish 2, Start 3, AdoptOwnPage 3]) 3 = {0}"
  by code_simp

subsection \<open>The download stage\<close>




























end
